theory Spec2Isabelle
  imports Complex_Main "HOL-Library.Sublist"
begin

section \<open>JavaScript string primitives\<close>

text \<open>
  The server handles text as JavaScript strings. A string is modelled as a \<^typ>\<open>string\<close>,
  one \<^typ>\<open>char\<close> per code unit below 256; every literal of the source is ASCII.
\<close>

text \<open>\<^verbatim>\<open>s.split(c)\<close> for a one-character separator: never the empty list.\<close>

fun split_on :: "char \<Rightarrow> string \<Rightarrow> string list" where
  "split_on c [] = [[]]"
| "split_on c (x # xs) =
     (if x = c then [] # split_on c xs
      else (case split_on c xs of
              [] \<Rightarrow> [[x]]
            | w # ws \<Rightarrow> (x # w) # ws))"

text \<open>\<^verbatim>\<open>xs.join(sep)\<close>.\<close>

fun join_with :: "string \<Rightarrow> string list \<Rightarrow> string" where
  "join_with sep [] = []"
| "join_with sep [x] = x"
| "join_with sep (x # y # ys) = x @ sep @ join_with sep (y # ys)"

text \<open>\<^verbatim>\<open>xs.slice(a, b)\<close> for \<open>0 \<le> a \<le> b\<close>; the end is clamped to the length.\<close>

definition slice :: "nat \<Rightarrow> nat \<Rightarrow> 'a list \<Rightarrow> 'a list" where
  "slice a b xs = take (b - a) (drop a xs)"

text \<open>
  The white space that \<^verbatim>\<open>trim()\<close> removes and \<^verbatim>\<open>\s\<close> matches, among the code
  units below 256: tab, line feed, vertical tab, form feed, carriage return, space and
  the no-break space.
\<close>

definition isSpace :: "char \<Rightarrow> bool" where
  "isSpace c = (c = CHR 0x09 \<or> c = CHR 0x0A \<or> c = CHR 0x0B \<or> c = CHR 0x0C \<or>
                c = CHR 0x0D \<or> c = CHR 0x20 \<or> c = CHR 0xA0)"

definition trim :: "string \<Rightarrow> string" where
  "trim s = rev (dropWhile isSpace (rev (dropWhile isSpace s)))"

text \<open>\<^verbatim>\<open>s.indexOf(pat)\<close>, with \<open>None\<close> for -1, and \<^verbatim>\<open>s.includes(pat)\<close>.\<close>

fun indexOf :: "string \<Rightarrow> string \<Rightarrow> nat option" where
  "indexOf pat [] = (if pat = [] then Some 0 else None)"
| "indexOf pat (c # cs) =
     (if prefix pat (c # cs) then Some 0
      else map_option Suc (indexOf pat cs))"

definition includes_str :: "string \<Rightarrow> string \<Rightarrow> bool" where
  "includes_str s pat = (indexOf pat s \<noteq> None)"

section \<open>The streaming synthesizer (server.js, streamResponse)\<close>

definition chunkSize :: nat where
  "chunkSize = 5"

text \<open>
  The loop \<^verbatim>\<open>for (let i = 0; i < words.length; i += chunkSize)\<close>, from index \<open>i\<close>:
  the list of the chunks it yields.
\<close>

function chunks_from :: "nat \<Rightarrow> string list \<Rightarrow> string list" where
  "chunks_from i words =
     (if i < length words
      then (join_with '' '' (slice i (i + chunkSize) words)
              @ (if i + chunkSize < length words then '' '' else ''''))
           # chunks_from (i + chunkSize) words
      else [])"
  by pat_completeness auto
termination
  by (relation "measure (\<lambda>(i, words). length words - i)") (auto simp: chunkSize_def)

declare chunks_from.simps [simp del]

text \<open>The chunks streamed for a response that \<^verbatim>\<open>runLiteRT\<close> resolved with.\<close>

definition stream_chunks :: "string \<Rightarrow> string list" where
  "stream_chunks fullResponse = chunks_from 0 (split_on CHR '' '' fullResponse)"

text \<open>
  The synthesizer in the specification's words: the answer is split on white space into
  words, the words are grouped into windows of \<open>n\<close>, each window is joined with one
  space, and every chunk but the last gets a trailing space.
\<close>

definition spec_words :: "string \<Rightarrow> string list" where
  "spec_words s =
     filter (\<lambda>w. w \<noteq> []) (split_on CHR '' '' (map (\<lambda>c. if isSpace c then CHR '' '' else c) s))"

function windows :: "nat \<Rightarrow> 'a list \<Rightarrow> 'a list list" where
  "windows n xs = (if n = 0 \<or> xs = [] then [] else take n xs # windows n (drop n xs))"
  by pat_completeness auto
termination
  by (relation "measure (\<lambda>(n, xs). length xs)") auto

declare windows.simps [simp del]

fun trailing_spaces :: "string list \<Rightarrow> string list" where
  "trailing_spaces [] = []"
| "trailing_spaces [c] = [c]"
| "trailing_spaces (c # d # cs) = (c @ '' '') # trailing_spaces (d # cs)"

definition spec_synthesize :: "string \<Rightarrow> nat \<Rightarrow> string list" where
  "spec_synthesize answer n = trailing_spaces (map (join_with '' '') (windows n (spec_words answer)))"

section \<open>The output parser (litert-parser.js, parseLiteRTOutput)\<close>

definition responseMarkers :: "string list" where
  "responseMarkers =
     [''Response:'', ''Generated text:'', ''Output:'', ''Assistant:'', ''Model output:'',
      ''Generation:'', ''model\<newline>'']"

definition endMarkers :: "string list" where
  "endMarkers =
     [''Prefill:'', ''Decode:'', ''Peak memory'', ''Tokens/sec'', ''Performance:'',
      ''Benchmark results:'', ''---'', ''==='', ''I0000'', ''W0000'', ''E0000'', ''F0000'']"

definition sentinel :: string where
  "sentinel = ''No response generated''"

definition isDigit :: "char \<Rightarrow> bool" where
  "isDigit c = (c \<in> set ''0123456789'')"

text \<open>The regular expression \<^verbatim>\<open>/^[IWEF]\d{4}/\<close>.\<close>

fun log_prefix :: "string \<Rightarrow> bool" where
  "log_prefix (c # d1 # d2 # d3 # d4 # _) =
     (c \<in> set ''IWEF'' \<and> isDigit d1 \<and> isDigit d2 \<and> isDigit d3 \<and> isDigit d4)"
| "log_prefix _ = False"

text \<open>
  The first loop: the index of the first line that is no log line and not blank. When the
  loop finds none, \<^verbatim>\<open>startIndex\<close> keeps its initial value 0.
\<close>

fun skip_logs :: "nat \<Rightarrow> string list \<Rightarrow> nat" where
  "skip_logs i [] = 0"
| "skip_logs i (line # rest) =
     (if \<not> log_prefix line \<and> \<not> includes_str line ''INFO:'' \<and> \<not> includes_str line ''WARNING:''
         \<and> trim line \<noteq> []
      then i
      else skip_logs (Suc i) rest)"

definition has_end_marker :: "string \<Rightarrow> bool" where
  "has_end_marker line = list_ex (\<lambda>marker. includes_str line marker) endMarkers"

text \<open>
  The loop over \<^verbatim>\<open>responseMarkers\<close> on one line: the first marker of the list that the
  line includes, with its index in the line.
\<close>

fun find_marker :: "string list \<Rightarrow> string \<Rightarrow> (string \<times> nat) option" where
  "find_marker [] line = None"
| "find_marker (marker # markers) line =
     (case indexOf marker line of
        Some markerIndex \<Rightarrow> Some (marker, markerIndex)
      | None \<Rightarrow> find_marker markers line)"

record scan_state =
  response :: string
  inResponse :: bool
  foundResponseMarker :: bool

definition mark_line :: "string \<Rightarrow> scan_state \<Rightarrow> scan_state" where
  "mark_line line st =
     (case find_marker responseMarkers line of
        None \<Rightarrow> st
      | Some (marker, markerIndex) \<Rightarrow>
          (let afterMarker = trim (drop (markerIndex + length marker) line)
           in st\<lparr>inResponse := True, foundResponseMarker := True,
                 response := (if afterMarker \<noteq> [] then afterMarker else response st)\<rparr>))"

text \<open>The block \<^verbatim>\<open>if (inResponse && i > 0)\<close> on line \<open>i\<close>.\<close>

definition collect_line :: "nat \<Rightarrow> string \<Rightarrow> scan_state \<Rightarrow> scan_state" where
  "collect_line i line st =
     (let trimmedLine = trim line
      in if inResponse st \<and> i > 0
         then (if response st = [] \<and> trimmedLine = [] then st
               else if trimmedLine \<noteq> []
                    then st\<lparr>response :=
                           (if response st \<noteq> [] then response st @ ''\<newline>'' else response st) @ line\<rparr>
                    else st)
         else st)"

text \<open>The second loop, from line \<open>i\<close> on; the first argument is the index of the head line.\<close>

fun primary_scan :: "nat \<Rightarrow> string list \<Rightarrow> scan_state \<Rightarrow> scan_state" where
  "primary_scan i [] st = st"
| "primary_scan i (line # rest) st =
     (if has_end_marker line \<and> inResponse st then st
      else primary_scan (Suc i) rest (collect_line i line (mark_line line st)))"

text \<open>The third loop, run when no marker was found.\<close>

fun fallback_scan :: "string list \<Rightarrow> string list" where
  "fallback_scan [] = []"
| "fallback_scan (line # rest) =
     (if has_end_marker line then []
      else if trim line \<noteq> [] then line # fallback_scan rest
      else fallback_scan rest)"

text \<open>
  \<^verbatim>\<open>response.replace(/\nPrefill:.*$/s, '')\<close>: with the flag \<open>s\<close> the dot matches every
  character, so the first occurrence of the literal and all that follows is removed.
\<close>

definition perfPatterns :: "string list" where
  "perfPatterns = [''\<newline>Prefill:'', ''\<newline>Decode:'', ''\<newline>Peak memory'', ''\<newline>Tokens/sec'']"

definition replace_to_end :: "string \<Rightarrow> string \<Rightarrow> string" where
  "replace_to_end pat s = (case indexOf pat s of None \<Rightarrow> s | Some k \<Rightarrow> take k s)"

definition parseLiteRTOutput :: "string \<Rightarrow> string" where
  "parseLiteRTOutput output =
     (let lines = split_on CHR 0x0A output;
          startIndex = skip_logs 0 lines;
          st = primary_scan startIndex (drop startIndex lines)
                 \<lparr>response = [], inResponse = False, foundResponseMarker = False\<rparr>;
          response1 =
            (if \<not> foundResponseMarker st \<and> startIndex < length lines
             then join_with ''\<newline>'' (fallback_scan (drop startIndex lines))
             else response st);
          response2 = fold (\<lambda>pattern r. trim (replace_to_end pattern r)) perfPatterns (trim response1)
      in if response2 \<noteq> [] then response2 else sentinel)"

section \<open>The metrics of parseStructuredOutput\<close>

text \<open>
  The three regular expressions of \<^verbatim>\<open>parseStructuredOutput\<close> are sequences of the items
  below, and \<open>rx_match\<close> is the backtracking matcher of such a sequence at the start of
  a string: a greedy item tries the longest repetition first, a lazy one the shortest, an
  optional character is tried present first. It returns the text of the capture group.
\<close>

datatype cls = AnyChar | Digit | Space

fun in_cls :: "cls \<Rightarrow> char \<Rightarrow> bool" where
  "in_cls AnyChar c = (c \<noteq> CHR 0x0A \<and> c \<noteq> CHR 0x0D)"
| "in_cls Digit c = isDigit c"
| "in_cls Space c = isSpace c"

datatype rx = Lit string | Lazy cls | Greedy cls | Plus cls | Opt char | GroupOpen | GroupClose

text \<open>
  The flag \<open>i\<close> compares characters by their upper case; the literals of the three
  expressions are ASCII, which only the ASCII letters reach.
\<close>

definition canonicalize :: "char \<Rightarrow> char" where
  "canonicalize c =
     (if c \<in> set ''abcdefghijklmnopqrstuvwxyz'' then char_of (of_char c - (32::nat)) else c)"

definition ci_prefix :: "string \<Rightarrow> string \<Rightarrow> bool" where
  "ci_prefix lit s =
     (length lit \<le> length s \<and> map canonicalize (take (length lit) s) = map canonicalize lit)"

fun rx_match :: "rx list \<Rightarrow> string \<Rightarrow> string \<Rightarrow> string \<Rightarrow> string option" where
  "rx_match [] s opn cap = Some cap"
| "rx_match (Lit lit # r) s opn cap =
     (if ci_prefix lit s then rx_match r (drop (length lit) s) opn cap else None)"
| "rx_match (GroupOpen # r) s opn cap = rx_match r s s cap"
| "rx_match (GroupClose # r) s opn cap = rx_match r s opn (take (length opn - length s) opn)"
| "rx_match (Opt c # r) [] opn cap = rx_match r [] opn cap"
| "rx_match (Opt c # r) (x # xs) opn cap =
     (if x = c
      then (case rx_match r xs opn cap of
              Some m \<Rightarrow> Some m
            | None \<Rightarrow> rx_match r (x # xs) opn cap)
      else rx_match r (x # xs) opn cap)"
| "rx_match (Greedy k # r) [] opn cap = rx_match r [] opn cap"
| "rx_match (Greedy k # r) (x # xs) opn cap =
     (if in_cls k x
      then (case rx_match (Greedy k # r) xs opn cap of
              Some m \<Rightarrow> Some m
            | None \<Rightarrow> rx_match r (x # xs) opn cap)
      else rx_match r (x # xs) opn cap)"
| "rx_match (Plus k # r) [] opn cap = None"
| "rx_match (Plus k # r) (x # xs) opn cap =
     (if in_cls k x then rx_match (Greedy k # r) xs opn cap else None)"
| "rx_match (Lazy k # r) [] opn cap = rx_match r [] opn cap"
| "rx_match (Lazy k # r) (x # xs) opn cap =
     (case rx_match r (x # xs) opn cap of
        Some m \<Rightarrow> Some m
      | None \<Rightarrow> if in_cls k x then rx_match (Lazy k # r) xs opn cap else None)"

text \<open>\<^verbatim>\<open>line.match(re)\<close> without the flag \<open>g\<close>: the leftmost start that matches.\<close>

fun rx_search :: "rx list \<Rightarrow> string \<Rightarrow> string option" where
  "rx_search re [] = rx_match re [] [] []"
| "rx_search re (x # xs) =
     (case rx_match re (x # xs) [] [] of
        Some m \<Rightarrow> Some m
      | None \<Rightarrow> rx_search re xs)"

text \<open>\<^verbatim>\<open>/KEY.*?(\d+\.?\d*)\s*UNIT/i\<close>.\<close>

definition metric_re :: "string \<Rightarrow> string \<Rightarrow> rx list" where
  "metric_re key unit =
     [Lit key, Lazy AnyChar, GroupOpen, Plus Digit, Opt CHR ''.'', Greedy Digit, GroupClose,
      Greedy Space, Lit unit]"

record 'n metrics =
  prefillTokensPerSec :: "'n option"
  decodeTokensPerSec :: "'n option"
  peakMemoryMB :: "'n option"

text \<open>
  The guard \<^verbatim>\<open>line.includes(key)\<close> and the match of one category on one line: the text
  of the capture group, if the line passes both.
\<close>

definition metric_capture :: "string \<Rightarrow> string \<Rightarrow> string \<Rightarrow> string option" where
  "metric_capture key unit line =
     (if includes_str line key then rx_search (metric_re key unit) line else None)"

text \<open>
  One iteration of the loop over the lines. \<open>parseFloat\<close> is JavaScript's, applied to the
  text of the capture group; the model takes it as a parameter.
\<close>

definition metrics_line :: "(string \<Rightarrow> 'n) \<Rightarrow> string \<Rightarrow> 'n metrics \<Rightarrow> 'n metrics" where
  "metrics_line parseFloat line m =
     (let m1 = (case metric_capture ''Prefill:'' ''tokens/sec'' line of
                  Some g \<Rightarrow> m\<lparr>prefillTokensPerSec := Some (parseFloat g)\<rparr>
                | None \<Rightarrow> m);
          m2 = (case metric_capture ''Decode:'' ''tokens/sec'' line of
                  Some g \<Rightarrow> m1\<lparr>decodeTokensPerSec := Some (parseFloat g)\<rparr>
                | None \<Rightarrow> m1)
      in (case metric_capture ''Peak memory'' ''MB'' line of
            Some g \<Rightarrow> m2\<lparr>peakMemoryMB := Some (parseFloat g)\<rparr>
          | None \<Rightarrow> m2))"

text \<open>The captures of one category over the lines of the output, in the order of the lines.\<close>

definition metric_captures :: "string \<Rightarrow> string \<Rightarrow> string \<Rightarrow> string list" where
  "metric_captures key unit output =
     List.map_filter (metric_capture key unit) (split_on CHR 0x0A output)"

record 'n structured_output =
  response_text :: string
  metrics :: "'n metrics"

definition parseStructuredOutput :: "(string \<Rightarrow> 'n) \<Rightarrow> string \<Rightarrow> 'n structured_output" where
  "parseStructuredOutput parseFloat output =
     \<lparr>response_text = parseLiteRTOutput output,
      metrics = fold (metrics_line parseFloat) (split_on CHR 0x0A output)
                  \<lparr>prefillTokensPerSec = None, decodeTokensPerSec = None, peakMemoryMB = None\<rparr>\<rparr>"

text \<open>
  The number that a captured numeral \<open>digits\<close> or \<open>digits.digits\<close> denotes;
  \<^verbatim>\<open>parseFloat\<close> returns the double nearest to it.
\<close>

definition digits_value :: "string \<Rightarrow> nat" where
  "digits_value ds = foldl (\<lambda>a d. 10 * a + (of_char d - 48)) 0 ds"

definition decimal_value :: "string \<Rightarrow> rat" where
  "decimal_value s =
     (let ip = takeWhile isDigit s;
          fp = (case dropWhile isDigit s of
                  c # r \<Rightarrow> if c = CHR ''.'' then takeWhile isDigit r else []
                | [] \<Rightarrow> [])
      in of_nat (digits_value ip) + of_nat (digits_value fp) / 10 ^ length fp)"

section \<open>The process invocation (server.js, runLiteRT)\<close>

text \<open>
  What the child process ends with: it could not be started (the event \<^verbatim>\<open>error\<close>), or
  it closed with an exit code (\<open>None\<close> is \<^verbatim>\<open>null\<close>, the code of a process that a signal
  ended) and the two captured channels.
\<close>

datatype proc_end = StartError string | Close "int option" string string

datatype outcome = Resolve string | Reject string

function show_nat :: "nat \<Rightarrow> string" where
  "show_nat n =
     (if n < 10 then [char_of (48 + n)]
      else show_nat (n div 10) @ [char_of (48 + n mod 10)])"
  by pat_completeness auto
termination
  by (relation "measure id") auto

declare show_nat.simps [simp del]

definition show_code :: "int option \<Rightarrow> string" where
  "show_code code =
     (case code of
        None \<Rightarrow> ''null''
      | Some c \<Rightarrow> if c < 0 then ''-'' @ show_nat (nat (- c)) else show_nat (nat c))"

definition greeting :: string where
  "greeting = ''Hello! How can I help you today?''"

definition runLiteRT :: "proc_end \<Rightarrow> outcome" where
  "runLiteRT ev =
     (case ev of
        StartError message \<Rightarrow> Reject (''Failed to start LiteRT process: '' @ message)
      | Close code output error \<Rightarrow>
          if code \<noteq> Some 0
          then (if includes_str error ''Check failure'' \<or> includes_str error ''F0000''
                then (let errorLines = split_on CHR 0x0A error;
                          fatalError = (case find (\<lambda>line. includes_str line ''F0000'') errorLines of
                                          Some line \<Rightarrow> line
                                        | None \<Rightarrow> ''Unknown fatal error'')
                      in Reject (''LiteRT fatal error: '' @ fatalError))
                else Reject (''LiteRT process exited with code '' @ show_code code @ '': '' @ error))
          else (let response = parseLiteRTOutput output
                in if response = [] \<or> response = sentinel
                   then (let stderrResponse = parseLiteRTOutput error
                         in if stderrResponse \<noteq> [] \<and> stderrResponse \<noteq> sentinel
                            then Resolve stderrResponse
                            else Resolve greeting)
                   else Resolve response))"

text \<open>The generator \<^verbatim>\<open>streamResponse\<close>: it throws what \<^verbatim>\<open>runLiteRT\<close> rejects with.\<close>

definition streamResponse :: "proc_end \<Rightarrow> string + string list" where
  "streamResponse ev =
     (case runLiteRT ev of
        Reject message \<Rightarrow> Inl message
      | Resolve fullResponse \<Rightarrow> Inr (stream_chunks fullResponse))"

section \<open>Lists of lines and words\<close>

lemma split_on_not_Nil: "split_on c s \<noteq> []"
  by (induction s) (auto split: list.splits)

lemma join_with_Cons: "ys \<noteq> [] \<Longrightarrow> join_with sep (x # ys) = x @ sep @ join_with sep ys"
  by (cases ys) auto

lemma join_with_append:
  "xs \<noteq> [] \<Longrightarrow> ys \<noteq> [] \<Longrightarrow> join_with sep (xs @ ys) = join_with sep xs @ sep @ join_with sep ys"
proof (induction xs)
  case Nil
  then show ?case by simp
next
  case (Cons x xs)
  show ?case
  proof (cases "xs = []")
    case True
    with Cons.prems show ?thesis by (simp add: join_with_Cons)
  next
    case False
    with Cons show ?thesis by (simp add: join_with_Cons)
  qed
qed

lemma join_split_on: "join_with [c] (split_on c s) = s"
proof (induction s)
  case Nil
  show ?case by simp
next
  case (Cons x xs)
  show ?case
  proof (cases "x = c")
    case True
    with Cons show ?thesis by (simp add: join_with_Cons split_on_not_Nil)
  next
    case False
    obtain w ws where sp: "split_on c xs = w # ws"
      using split_on_not_Nil [of c xs] by (cases "split_on c xs") auto
    from Cons sp have "xs = join_with [c] (w # ws)" by simp
    moreover have "join_with [c] ((x # w) # ws) = x # join_with [c] (w # ws)"
      by (cases ws) auto
    ultimately show ?thesis using False sp by simp
  qed
qed

lemma windows_Nil: "windows n [] = []"
  by (simp add: windows.simps)

lemma windows_step: "0 < n \<Longrightarrow> xs \<noteq> [] \<Longrightarrow> windows n xs = take n xs # windows n (drop n xs)"
  by (subst windows.simps) simp

lemma windows_not_Nil: "0 < n \<Longrightarrow> xs \<noteq> [] \<Longrightarrow> windows n xs \<noteq> []"
  by (simp add: windows_step)

lemma chunks_from_windows:
  "chunks_from i words =
     trailing_spaces (map (join_with '' '') (windows chunkSize (drop i words)))"
proof (induction i words rule: chunks_from.induct)
  case (1 i words)
  show ?case
  proof (cases "i < length words")
    case False
    then show ?thesis by (simp add: chunks_from.simps windows_Nil)
  next
    case True
    have pos: "0 < chunkSize" by (simp add: chunkSize_def)
    from True have ne: "drop i words \<noteq> []" by simp
    have dd: "drop chunkSize (drop i words) = drop (i + chunkSize) words"
      by (simp add: add.commute)
    have w: "windows chunkSize (drop i words) =
               slice i (i + chunkSize) words # windows chunkSize (drop (i + chunkSize) words)"
      using windows_step [OF pos ne] by (simp add: slice_def add.commute)
    have ih: "chunks_from (i + chunkSize) words =
                trailing_spaces (map (join_with '' '') (windows chunkSize (drop (i + chunkSize) words)))"
      using "1.IH" [OF True] .
    show ?thesis
    proof (cases "i + chunkSize < length words")
      case True
      then have "drop (i + chunkSize) words \<noteq> []" by simp
      from windows_not_Nil [OF pos this]
      obtain v vs where v: "windows chunkSize (drop (i + chunkSize) words) = v # vs"
        by (cases "windows chunkSize (drop (i + chunkSize) words)") auto
      show ?thesis
        using \<open>i < length words\<close> True ih
        by (subst chunks_from.simps) (simp add: w v)
    next
      case False
      then have "drop (i + chunkSize) words = []" by simp
      then show ?thesis
        using \<open>i < length words\<close> False ih
        by (subst chunks_from.simps) (simp add: w windows_Nil)
    qed
  qed
qed

lemma concat_chunks_from:
  "i < length words \<Longrightarrow> concat (chunks_from i words) = join_with '' '' (drop i words)"
proof (induction i words rule: chunks_from.induct)
  case (1 i words)
  have sl: "slice i (i + chunkSize) words = take chunkSize (drop i words)"
    by (simp add: slice_def)
  have dd: "drop chunkSize (drop i words) = drop (i + chunkSize) words"
    by (simp add: add.commute)
  show ?case
  proof (cases "i + chunkSize < length words")
    case True
    have a: "take chunkSize (drop i words) \<noteq> []"
      using "1.prems" by (simp add: chunkSize_def)
    have b: "drop (i + chunkSize) words \<noteq> []" using True by simp
    have "join_with '' '' (drop i words) =
            join_with '' '' (take chunkSize (drop i words) @ drop (i + chunkSize) words)"
      using append_take_drop_id [of chunkSize "drop i words"] by (simp only: dd)
    also have "\<dots> = join_with '' '' (take chunkSize (drop i words)) @ '' '' @
                     join_with '' '' (drop (i + chunkSize) words)"
      by (rule join_with_append [OF a b])
    finally show ?thesis
      using "1.prems" True "1.IH" [OF "1.prems" True]
      by (subst chunks_from.simps) (simp add: sl)
  next
    case False
    then have "take chunkSize (drop i words) = drop i words" by simp
    moreover have "chunks_from (i + chunkSize) words = []"
      using False by (subst chunks_from.simps) simp
    ultimately show ?thesis
      using "1.prems" False
      by (subst chunks_from.simps) (simp add: sl)
  qed
qed

section \<open>Properties of the streaming synthesizer\<close>

text \<open>
  C6, as amended. The answer is split at every single space character (not at white
  space in general: a tab or a line feed stays inside its word, and two spaces in a row
  give an empty word), the words are grouped into consecutive windows of five (the chunk
  size is a constant of the code), each window is joined with one space, and every chunk
  but the last gets a trailing space. The answer \<open>a b c d e f g\<close> gives the two chunks
  \<open>a b c d e \<close> and \<open>f g\<close>.
\<close>

theorem stream_chunks_windows:
  "stream_chunks answer =
     trailing_spaces (map (join_with '' '') (windows 5 (split_on CHR '' '' answer)))
   \<and> stream_chunks ''a b c d e f g'' = [''a b c d e '', ''f g'']"
proof
  show "stream_chunks answer =
          trailing_spaces (map (join_with '' '') (windows 5 (split_on CHR '' '' answer)))"
    using chunks_from_windows [of 0 "split_on CHR '' '' answer"]
    by (simp add: stream_chunks_def chunkSize_def)
  show "stream_chunks ''a b c d e f g'' = [''a b c d e '', ''f g'']"
    by (simp add: stream_chunks_def chunks_from.simps slice_def chunkSize_def)
qed

theorem stream_chunks_windows_witness:
  "stream_chunks ''to be or not to be that is'' = [''to be or not to '', ''be that is'']"
  using stream_chunks_windows [of "''to be or not to be that is''"]
  by (simp add: windows.simps)

text \<open>
  C6 as stated fails: the claim splits on white space and rejoins with single spaces, so
  for the answer of the two lines \<open>a\<close> and \<open>b\<close> it gives the chunk \<open>a b\<close>, while the code,
  which splits at spaces only, yields the answer unchanged as its one chunk.
\<close>

theorem stream_chunks_whitespace_counterexample:
  "stream_chunks ''a\<newline>b'' = [''a\<newline>b''] \<and> spec_synthesize ''a\<newline>b'' 5 = [''a b'']"
  by (simp add: stream_chunks_def chunks_from.simps slice_def chunkSize_def
      spec_synthesize_def spec_words_def isSpace_def windows.simps)

text \<open>
  The answer that is streamed is never empty: the invocation resolves with what the parser
  extracted, if that is not empty, or with the greeting. So the loop of the synthesizer is
  entered at least once, and every stream has at least one chunk.
\<close>

lemma runLiteRT_resolves_nonempty:
  "runLiteRT ev = Resolve fullResponse \<Longrightarrow> fullResponse \<noteq> []"
  by (auto simp: runLiteRT_def Let_def greeting_def split: proc_end.splits if_splits)

lemma stream_chunks_not_Nil: "stream_chunks answer \<noteq> []"
proof -
  have "0 < length (split_on CHR '' '' answer)"
    using split_on_not_Nil [of "CHR '' ''" answer] by simp
  then show ?thesis
    by (subst stream_chunks_def, subst chunks_from.simps) simp
qed

lemma streamResponse_yields_chunk:
  "streamResponse ev = Inr chunks \<Longrightarrow> chunks \<noteq> []"
  by (auto simp: streamResponse_def stream_chunks_not_Nil split: outcome.splits)

text \<open>
  C10. For every answer, the chunks of the synthesizer, concatenated in order, are the
  answer itself.
\<close>

theorem concat_stream_chunks:
  "concat (stream_chunks answer) = answer"
proof -
  have "0 < length (split_on CHR '' '' answer)"
    using split_on_not_Nil [of "CHR '' ''" answer] by simp
  then show ?thesis
    using join_split_on [of "CHR '' ''" answer]
    by (simp add: stream_chunks_def concat_chunks_from)
qed

theorem concat_stream_chunks_witness:
  "concat (stream_chunks ''The  capital\<newline>of France is  Paris. '') = ''The  capital\<newline>of France is  Paris. ''"
  using concat_stream_chunks [of "''The  capital\<newline>of France is  Paris. ''"] by simp

section \<open>Searching in strings and in their lines\<close>

lemma indexOf_None_iff: "indexOf pat s = None \<longleftrightarrow> \<not> sublist pat s"
  by (induction s) (auto simp: sublist_Cons_right)

lemma includes_str_iff: "includes_str s pat \<longleftrightarrow> sublist pat s"
  by (simp add: includes_str_def indexOf_None_iff)

lemma split_on_line_sublist: "l \<in> set (split_on c s) \<Longrightarrow> sublist l s"
proof (induction s arbitrary: l)
  case Nil
  then show ?case by simp
next
  case (Cons x xs)
  obtain w ws where sp: "split_on c xs = w # ws"
    using split_on_not_Nil [of c xs] by (cases "split_on c xs") auto
  show ?case
  proof (cases "x = c")
    case True
    with Cons.prems have "l = [] \<or> l \<in> set (split_on c xs)" by simp
    then show ?thesis using Cons.IH by (auto simp: sublist_Cons_right)
  next
    case False
    with Cons.prems sp have "l = x # w \<or> l \<in> set ws" by simp
    then show ?thesis
    proof
      assume l: "l = x # w"
      have "sublist w xs" using Cons.IH [of w] sp by simp
      then obtain a b where "xs = a @ w @ b" by (auto simp: sublist_def)
      moreover have "prefix w xs"
        using sp
      proof (induction xs arbitrary: w ws)
        case Nil
        then show ?case by simp
      next
        case (Cons y ys)
        then show ?case
          using split_on_not_Nil [of c ys]
          by (cases "split_on c ys") (auto split: if_splits)
      qed
      ultimately show ?thesis using l by (auto simp: sublist_Cons_right)
    next
      assume "l \<in> set ws"
      then have "sublist l xs" using Cons.IH sp by simp
      then show ?thesis by (simp add: sublist_Cons_right)
    qed
  qed
qed

lemma prefix_first_line:
  "c \<notin> set p \<Longrightarrow> prefix p s \<Longrightarrow> prefix p (hd (split_on c s))"
proof (induction s arbitrary: p)
  case Nil
  then show ?case by simp
next
  case (Cons x xs)
  show ?case
  proof (cases p)
    case Nil
    then show ?thesis by simp
  next
    case (Cons y q)
    with Cons.prems have y: "y = x" "x \<noteq> c" "c \<notin> set q" "prefix q xs" by auto
    obtain w ws where sp: "split_on c xs = w # ws"
      using split_on_not_Nil [of c xs] by (cases "split_on c xs") auto
    have "prefix q w" using Cons.IH [OF y(3) y(4)] sp by simp
    then show ?thesis using y sp Cons by simp
  qed
qed

lemma sublist_some_line:
  "c \<notin> set p \<Longrightarrow> sublist p s \<Longrightarrow> \<exists>l \<in> set (split_on c s). sublist p l"
proof (induction s)
  case Nil
  then show ?case by simp
next
  case (Cons x xs)
  obtain w ws where sp: "split_on c xs = w # ws"
    using split_on_not_Nil [of c xs] by (cases "split_on c xs") auto
  from Cons.prems(2) have "prefix p (x # xs) \<or> sublist p xs"
    by (simp add: sublist_Cons_right)
  then show ?case
  proof
    assume "prefix p (x # xs)"
    then have "prefix p (hd (split_on c (x # xs)))"
      using prefix_first_line [OF Cons.prems(1)] by blast
    moreover have "hd (split_on c (x # xs)) \<in> set (split_on c (x # xs))"
      using split_on_not_Nil [of c "x # xs"] by (intro hd_in_set)
    ultimately show ?thesis by (meson prefix_imp_sublist)
  next
    assume "sublist p xs"
    then obtain l where l: "l \<in> set (split_on c xs)" "sublist p l"
      using Cons.IH [OF Cons.prems(1)] by blast
    show ?thesis
    proof (cases "x = c")
      case True
      with l show ?thesis by auto
    next
      case False
      from l sp have "l = w \<or> l \<in> set ws" by simp
      then show ?thesis
      proof
        assume "l = w"
        then have "sublist p (x # w)" using l(2) by (simp add: sublist_Cons_right)
        then show ?thesis using False sp by auto
      next
        assume "l \<in> set ws"
        then show ?thesis using False sp l(2) by auto
      qed
    qed
  qed
qed

lemma includes_str_lines:
  "c \<notin> set pat \<Longrightarrow>
   includes_str s pat \<longleftrightarrow> (\<exists>l \<in> set (split_on c s). includes_str l pat)"
  unfolding includes_str_iff
  using sublist_some_line [of c pat s] split_on_line_sublist [of _ c s]
  by (meson sublist_order.order.trans)

lemma find_first:
  "find P xs = Some x \<Longrightarrow> \<exists>pre post. xs = pre @ x # post \<and> P x \<and> (\<forall>y \<in> set pre. \<not> P y)"
proof (induction xs)
  case Nil
  then show ?case by simp
next
  case (Cons a xs)
  show ?case
  proof (cases "P a")
    case True
    with Cons.prems have "a = x" by simp
    with True have "a # xs = [] @ x # xs \<and> P x \<and> (\<forall>y \<in> set []. \<not> P y)" by simp
    then show ?thesis by blast
  next
    case False
    with Cons obtain pre post where "xs = pre @ x # post" "P x" "\<forall>y \<in> set pre. \<not> P y"
      by auto
    with False have "a # xs = (a # pre) @ x # post \<and> P x \<and> (\<forall>y \<in> set (a # pre). \<not> P y)"
      by simp
    then show ?thesis by blast
  qed
qed

section \<open>Properties of the process invocation\<close>

lemma runLiteRT_nonzero:
  "code \<noteq> Some 0 \<Longrightarrow>
   runLiteRT (Close code output error) =
     (if includes_str error ''Check failure'' \<or> includes_str error ''F0000''
      then Reject (''LiteRT fatal error: '' @
             (case find (\<lambda>line. includes_str line ''F0000'') (split_on CHR 0x0A error) of
                Some line \<Rightarrow> line
              | None \<Rightarrow> ''Unknown fatal error''))
      else Reject (''LiteRT process exited with code '' @ show_code code @ '': '' @ error))"
  by (simp add: runLiteRT_def)

lemma fatal_line_found:
  assumes "includes_str error ''F0000''"
  shows "\<exists>pre line post.
           split_on CHR 0x0A error = pre @ line # post \<and> includes_str line ''F0000'' \<and>
           (\<forall>l \<in> set pre. \<not> includes_str l ''F0000'') \<and>
           find (\<lambda>line. includes_str line ''F0000'') (split_on CHR 0x0A error) = Some line"
proof -
  have "CHR 0x0A \<notin> set ''F0000''" by simp
  from includes_str_lines [OF this, of error] assms
  have "\<exists>l \<in> set (split_on CHR 0x0A error). includes_str l ''F0000''" by simp
  then obtain line where
    f: "find (\<lambda>line. includes_str line ''F0000'') (split_on CHR 0x0A error) = Some line"
    by (cases "find (\<lambda>line. includes_str line ''F0000'') (split_on CHR 0x0A error)")
       (auto simp: find_None_iff)
  from find_first [OF f] f show ?thesis by blast
qed

lemma fatal_line_absent:
  assumes "\<not> includes_str error ''F0000''"
  shows "find (\<lambda>line. includes_str line ''F0000'') (split_on CHR 0x0A error) = None"
proof -
  have "CHR 0x0A \<notin> set ''F0000''" by simp
  from includes_str_lines [OF this, of error] assms
  show ?thesis by (simp add: find_None_iff)
qed

text \<open>
  C8, as amended. When the process closes with an exit code other than 0: if the stderr
  text includes \<open>F0000\<close>, the invocation rejects with the message
  \<open>LiteRT fatal error: \<close> followed by the first line of stderr that includes \<open>F0000\<close>; if it
  includes \<open>Check failure\<close> but not \<open>F0000\<close>, the message is
  \<open>LiteRT fatal error: Unknown fatal error\<close> and carries no line of stderr; with neither
  signature the message is \<open>LiteRT process exited with code \<close>, the exit code, a colon and
  the full stderr text.
\<close>

theorem runLiteRT_nonzero_exit:
  assumes "code \<noteq> Some 0"
  shows "(includes_str error ''F0000'' \<longrightarrow>
           (\<exists>pre line post.
              split_on CHR 0x0A error = pre @ line # post \<and> includes_str line ''F0000'' \<and>
              (\<forall>l \<in> set pre. \<not> includes_str l ''F0000'') \<and>
              runLiteRT (Close code output error) = Reject (''LiteRT fatal error: '' @ line)))
       \<and> (includes_str error ''Check failure'' \<and> \<not> includes_str error ''F0000'' \<longrightarrow>
            runLiteRT (Close code output error) = Reject ''LiteRT fatal error: Unknown fatal error'')
       \<and> (\<not> includes_str error ''Check failure'' \<and> \<not> includes_str error ''F0000'' \<longrightarrow>
            runLiteRT (Close code output error) =
              Reject (''LiteRT process exited with code '' @ show_code code @ '': '' @ error))"
proof (intro conjI impI)
  assume inc: "includes_str error ''F0000''"
  from fatal_line_found [OF inc] obtain pre line post where
    l: "split_on CHR 0x0A error = pre @ line # post" "includes_str line ''F0000''"
       "\<forall>l \<in> set pre. \<not> includes_str l ''F0000''"
       "find (\<lambda>line. includes_str line ''F0000'') (split_on CHR 0x0A error) = Some line"
    by blast
  have "runLiteRT (Close code output error) = Reject (''LiteRT fatal error: '' @ line)"
    using runLiteRT_nonzero [OF assms, of "output" "error"] inc l(4) by simp
  with l(1-3) show "\<exists>pre line post.
      split_on CHR 0x0A error = pre @ line # post \<and> includes_str line ''F0000'' \<and>
      (\<forall>l \<in> set pre. \<not> includes_str l ''F0000'') \<and>
      runLiteRT (Close code output error) = Reject (''LiteRT fatal error: '' @ line)"
    by blast
next
  assume "includes_str error ''Check failure'' \<and> \<not> includes_str error ''F0000''"
  then show "runLiteRT (Close code output error) = Reject ''LiteRT fatal error: Unknown fatal error''"
    using runLiteRT_nonzero [OF assms, of "output" "error"] fatal_line_absent [of error] by simp
next
  assume "\<not> includes_str error ''Check failure'' \<and> \<not> includes_str error ''F0000''"
  then show "runLiteRT (Close code output error) =
      Reject (''LiteRT process exited with code '' @ show_code code @ '': '' @ error)"
    using runLiteRT_nonzero [OF assms, of "output" "error"] by simp
qed

lemma includes_examples:
  "includes_str ''I0001 start\<newline>F0000 00:00:00 Check failure: model load\<newline>'' ''F0000''"
  "includes_str ''Check failure: model load'' ''Check failure''"
  "\<not> includes_str ''Check failure: model load'' ''F0000''"
  "\<not> includes_str ''out of memory'' ''Check failure''"
  "\<not> includes_str ''out of memory'' ''F0000''"
  by code_simp+

lemma show_code_137: "show_code (Some 137) = ''137''"
  by code_simp

theorem runLiteRT_nonzero_exit_witness:
  "runLiteRT (Close (Some 1) '''' ''I0001 start\<newline>F0000 00:00:00 Check failure: model load\<newline>'')
     = Reject ''LiteRT fatal error: F0000 00:00:00 Check failure: model load''
   \<and> runLiteRT (Close (Some 1) '''' ''Check failure: model load'')
     = Reject ''LiteRT fatal error: Unknown fatal error''
   \<and> runLiteRT (Close (Some 137) '''' ''out of memory'')
     = Reject ''LiteRT process exited with code 137: out of memory''"
proof (intro conjI)
  have c: "Some (1::int) \<noteq> Some 0" by simp
  have sp: "split_on CHR 0x0A ''I0001 start\<newline>F0000 00:00:00 Check failure: model load\<newline>''
              = [''I0001 start'', ''F0000 00:00:00 Check failure: model load'', '''']"
    by code_simp
  have n: "\<not> includes_str ''I0001 start'' ''F0000''" by code_simp
  from runLiteRT_nonzero_exit [OF c, of "''I0001 start\<newline>F0000 00:00:00 Check failure: model load\<newline>''" "''''"]
    includes_examples(1)
  obtain pre line post where
    l: "split_on CHR 0x0A ''I0001 start\<newline>F0000 00:00:00 Check failure: model load\<newline>'' = pre @ line # post"
       "includes_str line ''F0000''" "\<forall>l \<in> set pre. \<not> includes_str l ''F0000''"
       "runLiteRT (Close (Some 1) '''' ''I0001 start\<newline>F0000 00:00:00 Check failure: model load\<newline>'')
          = Reject (''LiteRT fatal error: '' @ line)"
    by blast
  from l(1) sp have "pre @ line # post = [''I0001 start'', ''F0000 00:00:00 Check failure: model load'', '''']"
    by simp
  then have "line = ''F0000 00:00:00 Check failure: model load''"
    using l(2,3) n
    by (cases pre; cases "tl pre"; cases "tl (tl pre)") (auto simp: includes_str_def)
  with l(4) show "runLiteRT (Close (Some 1) '''' ''I0001 start\<newline>F0000 00:00:00 Check failure: model load\<newline>'')
     = Reject ''LiteRT fatal error: F0000 00:00:00 Check failure: model load''"
    by simp
  show "runLiteRT (Close (Some 1) '''' ''Check failure: model load'')
     = Reject ''LiteRT fatal error: Unknown fatal error''"
    using runLiteRT_nonzero_exit [OF c, of "''Check failure: model load''" "''''"] includes_examples(2,3)
    by blast
  have c2: "Some (137::int) \<noteq> Some 0" by simp
  show "runLiteRT (Close (Some 137) '''' ''out of memory'')
     = Reject ''LiteRT process exited with code 137: out of memory''"
    using runLiteRT_nonzero_exit [OF c2, of "''out of memory''" "''''"] includes_examples(4,5) show_code_137
    by simp
qed

text \<open>
  C8 as stated fails: with exit code 1 and the stderr text \<open>Check failure: model load\<close>
  the fatal signature is present, but no line of stderr includes \<open>F0000\<close>, and the message
  of the rejection carries the text \<open>Unknown fatal error\<close> instead of a line of stderr.
\<close>

theorem runLiteRT_check_failure_counterexample:
  "includes_str ''Check failure: model load'' ''Check failure''
   \<and> find (\<lambda>line. includes_str line ''F0000'') (split_on CHR 0x0A ''Check failure: model load'') = None
   \<and> runLiteRT (Close (Some 1) '''' ''Check failure: model load'')
       = Reject ''LiteRT fatal error: Unknown fatal error''"
  by code_simp

text \<open>
  C9. When the process closes with exit code 0, the invocation resolves with what the
  parser extracts from stdout if that is not empty and not the sentinel, otherwise with
  what it extracts from stderr if that is not empty and not the sentinel, otherwise with
  the fixed greeting; it never rejects.
\<close>

theorem runLiteRT_exit_zero:
  "runLiteRT (Close (Some 0) output error) =
     Resolve (if parseLiteRTOutput output \<noteq> [] \<and> parseLiteRTOutput output \<noteq> sentinel
              then parseLiteRTOutput output
              else if parseLiteRTOutput error \<noteq> [] \<and> parseLiteRTOutput error \<noteq> sentinel
                   then parseLiteRTOutput error
                   else greeting)
   \<and> (\<forall>message. runLiteRT (Close (Some 0) output error) \<noteq> Reject message)"
  by (simp add: runLiteRT_def Let_def)

lemma parse_examples:
  "parseLiteRTOutput ''Response: Paris\<newline>'' = ''Paris''"
  "parseLiteRTOutput '''' = sentinel"
  "parseLiteRTOutput ''\<newline>'' = sentinel"
  by code_simp+

theorem runLiteRT_exit_zero_witness:
  "runLiteRT (Close (Some 0) ''Response: Paris\<newline>'' '''') = Resolve ''Paris''
   \<and> runLiteRT (Close (Some 0) ''\<newline>'' ''Response: Paris\<newline>'') = Resolve ''Paris''
   \<and> runLiteRT (Close (Some 0) ''\<newline>'' '''') = Resolve ''Hello! How can I help you today?''"
  using runLiteRT_exit_zero [of "''Response: Paris\<newline>''" "''''"]
    runLiteRT_exit_zero [of "''\<newline>''" "''Response: Paris\<newline>''"]
    runLiteRT_exit_zero [of "''\<newline>''" "''''"]
  by (simp add: parse_examples) (simp add: sentinel_def greeting_def)

section \<open>Properties of the metrics\<close>

lemma map_filter_Cons:
  "List.map_filter f (x # xs) = (case f x of None \<Rightarrow> List.map_filter f xs | Some y \<Rightarrow> y # List.map_filter f xs)"
  by (simp add: List.map_filter_def split: option.splits)

lemma fold_metrics_prefill:
  "prefillTokensPerSec (fold (metrics_line pf) ls m) =
     (let gs = List.map_filter (metric_capture ''Prefill:'' ''tokens/sec'') ls
      in if gs = [] then prefillTokensPerSec m else Some (pf (last gs)))"
proof (induction ls arbitrary: m)
  case Nil
  show ?case by (simp add: List.map_filter_def)
next
  case (Cons l ls)
  have step: "prefillTokensPerSec (metrics_line pf l m) =
                (case metric_capture ''Prefill:'' ''tokens/sec'' l of
                   None \<Rightarrow> prefillTokensPerSec m | Some g \<Rightarrow> Some (pf g))"
    by (simp add: metrics_line_def Let_def split: option.splits)
  show ?case
    by (simp add: Cons.IH step map_filter_Cons Let_def split: option.splits)
qed

lemma fold_metrics_decode:
  "decodeTokensPerSec (fold (metrics_line pf) ls m) =
     (let gs = List.map_filter (metric_capture ''Decode:'' ''tokens/sec'') ls
      in if gs = [] then decodeTokensPerSec m else Some (pf (last gs)))"
proof (induction ls arbitrary: m)
  case Nil
  show ?case by (simp add: List.map_filter_def)
next
  case (Cons l ls)
  have step: "decodeTokensPerSec (metrics_line pf l m) =
                (case metric_capture ''Decode:'' ''tokens/sec'' l of
                   None \<Rightarrow> decodeTokensPerSec m | Some g \<Rightarrow> Some (pf g))"
    by (simp add: metrics_line_def Let_def split: option.splits)
  show ?case
    by (simp add: Cons.IH step map_filter_Cons Let_def split: option.splits)
qed

lemma fold_metrics_peak:
  "peakMemoryMB (fold (metrics_line pf) ls m) =
     (let gs = List.map_filter (metric_capture ''Peak memory'' ''MB'') ls
      in if gs = [] then peakMemoryMB m else Some (pf (last gs)))"
proof (induction ls arbitrary: m)
  case Nil
  show ?case by (simp add: List.map_filter_def)
next
  case (Cons l ls)
  have step: "peakMemoryMB (metrics_line pf l m) =
                (case metric_capture ''Peak memory'' ''MB'' l of
                   None \<Rightarrow> peakMemoryMB m | Some g \<Rightarrow> Some (pf g))"
    by (simp add: metrics_line_def Let_def split: option.splits)
  show ?case
    by (simp add: Cons.IH step map_filter_Cons Let_def split: option.splits)
qed

text \<open>
  C4, as amended. For each of the three categories, the value reported is the one of the
  last line of the raw text that matches the category (every matching line overwrites the
  value of the lines before it), converted by \<open>parseFloat\<close>; a category that no line matches
  is absent from the result.
\<close>

theorem metrics_last_match:
  "prefillTokensPerSec (metrics (parseStructuredOutput pf output)) =
     (if metric_captures ''Prefill:'' ''tokens/sec'' output = [] then None
      else Some (pf (last (metric_captures ''Prefill:'' ''tokens/sec'' output))))
   \<and> decodeTokensPerSec (metrics (parseStructuredOutput pf output)) =
     (if metric_captures ''Decode:'' ''tokens/sec'' output = [] then None
      else Some (pf (last (metric_captures ''Decode:'' ''tokens/sec'' output))))
   \<and> peakMemoryMB (metrics (parseStructuredOutput pf output)) =
     (if metric_captures ''Peak memory'' ''MB'' output = [] then None
      else Some (pf (last (metric_captures ''Peak memory'' ''MB'' output))))"
  by (simp add: parseStructuredOutput_def metric_captures_def
      fold_metrics_prefill fold_metrics_decode fold_metrics_peak Let_def)

lemma metric_captures_examples:
  "metric_captures ''Prefill:'' ''tokens/sec''
     ''Prefill: 10 tokens/sec\<newline>Decode: 12.5 tokens/sec\<newline>Prefill: 20 tokens/sec\<newline>'' = [''10'', ''20'']"
  "metric_captures ''Decode:'' ''tokens/sec''
     ''Prefill: 10 tokens/sec\<newline>Decode: 12.5 tokens/sec\<newline>Prefill: 20 tokens/sec\<newline>'' = [''12.5'']"
  "metric_captures ''Peak memory'' ''MB''
     ''Prefill: 10 tokens/sec\<newline>Decode: 12.5 tokens/sec\<newline>Prefill: 20 tokens/sec\<newline>'' = []"
  by code_simp+

lemma decimal_value_examples:
  "decimal_value ''10'' = 10" "decimal_value ''20'' = 20" "decimal_value ''12.5'' = 25 / 2"
  by code_simp+

theorem metrics_last_match_witness:
  "metrics (parseStructuredOutput decimal_value
      ''Prefill: 10 tokens/sec\<newline>Decode: 12.5 tokens/sec\<newline>Prefill: 20 tokens/sec\<newline>'')
   = \<lparr>prefillTokensPerSec = Some 20, decodeTokensPerSec = Some (25 / 2), peakMemoryMB = None\<rparr>"
  using metrics_last_match [of decimal_value
      "''Prefill: 10 tokens/sec\<newline>Decode: 12.5 tokens/sec\<newline>Prefill: 20 tokens/sec\<newline>''"]
  by (simp add: metric_captures_examples decimal_value_examples metrics.equality)

text \<open>
  C4 as stated fails: of the two lines \<open>Prefill: 10 tokens/sec\<close> and
  \<open>Prefill: 20 tokens/sec\<close>, both of which match, the value reported is 20, that of the
  second line, and not 10, that of the first.
\<close>

theorem metrics_first_match_counterexample:
  "metric_capture ''Prefill:'' ''tokens/sec'' ''Prefill: 10 tokens/sec'' = Some ''10''
   \<and> metric_capture ''Prefill:'' ''tokens/sec'' ''Prefill: 20 tokens/sec'' = Some ''20''
   \<and> prefillTokensPerSec (metrics (parseStructuredOutput decimal_value
         ''Prefill: 10 tokens/sec\<newline>Prefill: 20 tokens/sec'')) = Some 20
   \<and> decimal_value ''10'' = 10"
  by code_simp

section \<open>Where the parser departs from the specification\<close>

text \<open>
  C2. On the output of the specification's scenario the parser does not return
  \<open>Paris is the capital of France.\<close>: the marker line has index 1, so the test
  \<^verbatim>\<open>i > 0\<close> that is meant to skip the marker line lets it through, and the whole marker
  line is appended after the text that follows the marker.
\<close>

theorem parse_marker_line_duplicated:
  "parseLiteRTOutput
     ''I0001 00:00:00 init\<newline>Response: Paris is the capital of France.\<newline>Prefill: 120 tokens/sec\<newline>''
   = ''Paris is the capital of France.\<newline>Response: Paris is the capital of France.''"
  by code_simp

text \<open>
  C3. On an output of log lines only the first loop finds no line to start at and leaves
  the start index at its initial value 0, not at the end of the input; the fallback loop
  then collects the log lines themselves, and the parser returns them instead of the
  sentinel.
\<close>

theorem parse_log_lines_returned:
  "skip_logs 0 (split_on CHR 0x0A ''I0001 00:00:00 init\<newline>I0002 00:00:01 model loaded\<newline>'') = 0
   \<and> parseLiteRTOutput ''I0001 00:00:00 init\<newline>I0002 00:00:01 model loaded\<newline>''
       = ''I0001 00:00:00 init\<newline>I0002 00:00:01 model loaded''"
  by code_simp

section \<open>Trimming and joining\<close>

lemma trim_eq_Nil_iff: "trim s = [] \<longleftrightarrow> (\<forall>c \<in> set s. isSpace c)"
proof
  assume "trim s = []"
  then have all: "\<forall>c \<in> set (dropWhile isSpace s). isSpace c"
    by (simp add: trim_def dropWhile_eq_Nil_conv)
  have "dropWhile isSpace s = []"
  proof (rule ccontr)
    assume ne: "dropWhile isSpace s \<noteq> []"
    then have "\<not> isSpace (hd (dropWhile isSpace s))" by (rule hd_dropWhile)
    moreover have "hd (dropWhile isSpace s) \<in> set (dropWhile isSpace s)"
      using ne by (rule hd_in_set)
    ultimately show False using all by blast
  qed
  then show "\<forall>c \<in> set s. isSpace c" by (simp add: dropWhile_eq_Nil_conv)
next
  assume "\<forall>c \<in> set s. isSpace c"
  then have d: "dropWhile isSpace s = []" by (simp add: dropWhile_eq_Nil_conv)
  show "trim s = []" unfolding trim_def d by simp
qed

lemma drop_trailing_Cons:
  "\<not> P x \<Longrightarrow> rev (dropWhile P (rev (x # xs))) = x # rev (dropWhile P (rev xs))"
  by (cases "\<forall>y \<in> set (rev xs). P y") (auto simp: dropWhile_append)

lemma trim_no_leading:
  "dropWhile isSpace (trim s) = trim s"
proof (cases "dropWhile isSpace s")
  case Nil
  show ?thesis unfolding trim_def Nil by simp
next
  case (Cons x xs)
  then have "\<not> isSpace x"
    using hd_dropWhile [of isSpace s] by auto
  then show ?thesis
    using Cons by (simp add: trim_def drop_trailing_Cons del: rev.simps)
qed

lemma trim_idem: "trim (trim s) = trim s"
proof -
  have "trim (trim s) = rev (dropWhile isSpace (rev (trim s)))"
    by (simp add: trim_def [of "trim s"] trim_no_leading)
  also have "rev (trim s) = dropWhile isSpace (rev (dropWhile isSpace s))"
    by (simp add: trim_def)
  also have "rev (dropWhile isSpace (dropWhile isSpace (rev (dropWhile isSpace s)))) = trim s"
    by (simp add: trim_def dropWhile_idem)
  finally show ?thesis .
qed

lemma trim_sublist: "sublist (trim s) s"
proof -
  have "suffix (dropWhile isSpace s) s"
    by (rule suffix_dropWhile)
  moreover have "prefix (trim s) (dropWhile isSpace s)"
  proof -
    have "suffix (dropWhile isSpace (rev (dropWhile isSpace s))) (rev (dropWhile isSpace s))"
      by (rule suffix_dropWhile)
    then show ?thesis by (simp add: trim_def suffix_to_prefix)
  qed
  ultimately show ?thesis
    by (meson prefix_imp_sublist suffix_imp_sublist sublist_order.order.trans)
qed

lemma split_on_free: "c \<notin> set l \<Longrightarrow> split_on c l = [l]"
  by (induction l) auto

lemma split_on_append_sep: "c \<notin> set l \<Longrightarrow> split_on c (l @ c # s) = l # split_on c s"
  by (induction l) auto

lemma split_on_join:
  "ls \<noteq> [] \<Longrightarrow> \<forall>l \<in> set ls. c \<notin> set l \<Longrightarrow> split_on c (join_with [c] ls) = ls"
proof (induction ls)
  case Nil
  then show ?case by simp
next
  case (Cons l ls)
  show ?case
  proof (cases "ls = []")
    case True
    with Cons.prems show ?thesis by (simp add: split_on_free)
  next
    case False
    with Cons show ?thesis by (simp add: join_with_Cons split_on_append_sep)
  qed
qed

lemma split_on_lines_free: "l \<in> set (split_on c s) \<Longrightarrow> c \<notin> set l"
proof (induction s arbitrary: l)
  case Nil
  then show ?case by simp
next
  case (Cons x xs)
  obtain w ws where sp: "split_on c xs = w # ws"
    using split_on_not_Nil [of c xs] by (cases "split_on c xs") auto
  have "c \<notin> set w" using Cons.IH [of w] sp by simp
  moreover have "\<forall>v \<in> set ws. c \<notin> set v" using Cons.IH sp by simp
  ultimately show ?case using Cons.prems sp Cons.IH by (auto split: if_splits)
qed

text \<open>The buffer after the lines \<open>ls\<close> have been appended to it, each after a line feed.\<close>

lemma foldl_append_lines:
  "\<forall>l \<in> set ls. l \<noteq> [] \<Longrightarrow>
   foldl (\<lambda>r l. (if r \<noteq> [] then r @ ''\<newline>'' else r) @ l) r ls =
     join_with ''\<newline>'' ((if r = [] then [] else [r]) @ ls)"
proof (induction ls arbitrary: r)
  case Nil
  show ?case by simp
next
  case (Cons l ls)
  then have l: "l \<noteq> []" and rest: "\<forall>l \<in> set ls. l \<noteq> []" by auto
  show ?case
  proof (cases "r = []")
    case True
    with l show ?thesis by (simp add: Cons.IH [OF rest])
  next
    case False
    have "foldl (\<lambda>r l. (if r \<noteq> [] then r @ ''\<newline>'' else r) @ l) r (l # ls) =
            join_with ''\<newline>'' ((r @ ''\<newline>'' @ l) # ls)"
      using False l Cons.IH [OF rest, of "r @ ''\<newline>'' @ l"] by simp
    also have "\<dots> = join_with ''\<newline>'' (r # l # ls)"
      by (cases ls) simp_all
    finally show ?thesis using False by simp
  qed
qed

section \<open>The parser on an output that starts with a marker line\<close>

lemma marker_lines:
  "list_all (\<lambda>m. \<not> log_prefix m \<and> \<not> includes_str m ''INFO:'' \<and> \<not> includes_str m ''WARNING:''
                 \<and> trim m \<noteq> []
                 \<and> (case find_marker responseMarkers m of
                       None \<Rightarrow> False
                     | Some (marker, k) \<Rightarrow> trim (drop (k + length marker) m) = []))
     (butlast responseMarkers)"
  by code_simp

lemma marker_line_cases:
  assumes "m \<in> set responseMarkers" and "CHR 0x0A \<notin> set m"
  shows "\<not> log_prefix m" "\<not> includes_str m ''INFO:''" "\<not> includes_str m ''WARNING:''"
    "trim m \<noteq> []"
    "\<exists>marker k. find_marker responseMarkers m = Some (marker, k)
                \<and> trim (drop (k + length marker) m) = []"
proof -
  have "m \<in> set (butlast responseMarkers) \<or> m = ''model\<newline>''"
    using assms(1) by (simp add: responseMarkers_def)
  moreover have "CHR 0x0A \<in> set ''model\<newline>''" by simp
  ultimately have "m \<in> set (butlast responseMarkers)" using assms(2) by blast
  with marker_lines have
    f: "\<not> log_prefix m \<and> \<not> includes_str m ''INFO:'' \<and> \<not> includes_str m ''WARNING:''
        \<and> trim m \<noteq> []
        \<and> (case find_marker responseMarkers m of
              None \<Rightarrow> False
            | Some (marker, k) \<Rightarrow> trim (drop (k + length marker) m) = [])"
    by (simp add: list_all_iff)
  then show "\<not> log_prefix m" "\<not> includes_str m ''INFO:''" "\<not> includes_str m ''WARNING:''"
    "trim m \<noteq> []"
    by simp_all
  from f show "\<exists>marker k. find_marker responseMarkers m = Some (marker, k)
                \<and> trim (drop (k + length marker) m) = []"
    by (cases "find_marker responseMarkers m") auto
qed

lemma mark_line_marker:
  assumes "m \<in> set responseMarkers" and "CHR 0x0A \<notin> set m"
  shows "mark_line m st = st\<lparr>inResponse := True, foundResponseMarker := True\<rparr>"
proof -
  from marker_line_cases(5) [OF assms] obtain marker k where
    "find_marker responseMarkers m = Some (marker, k)" "trim (drop (k + length marker) m) = []"
    by blast
  then show ?thesis by (simp add: mark_line_def)
qed

lemma mark_line_none:
  "find_marker responseMarkers l = None \<Longrightarrow> mark_line l st = st"
  by (simp add: mark_line_def)

lemma collect_line_in_response:
  "inResponse st \<Longrightarrow> 0 < i \<Longrightarrow>
   collect_line i l st =
     (if trim l \<noteq> []
      then st\<lparr>response := (if response st \<noteq> [] then response st @ ''\<newline>'' else response st) @ l\<rparr>
      else st)"
  by (simp add: collect_line_def Let_def)

lemma primary_scan_body:
  assumes "\<forall>l \<in> set body. \<not> has_end_marker l \<and> find_marker responseMarkers l = None"
    and "inResponse st" and "0 < i"
  shows "primary_scan i (body @ tail) st =
           primary_scan (i + length body) tail
             (st\<lparr>response := foldl (\<lambda>r l. (if r \<noteq> [] then r @ ''\<newline>'' else r) @ l)
                                 (response st) (filter (\<lambda>l. trim l \<noteq> []) body)\<rparr>)"
  using assms
proof (induction body arbitrary: i st)
  case Nil
  show ?case by simp
next
  case (Cons l body)
  from Cons.prems(1) have l: "\<not> has_end_marker l" "find_marker responseMarkers l = None"
    and rest: "\<forall>l \<in> set body. \<not> has_end_marker l \<and> find_marker responseMarkers l = None"
    by auto
  let ?st = "collect_line i l st"
  have step: "primary_scan i ((l # body) @ tail) st = primary_scan (Suc i) (body @ tail) ?st"
    using l by (simp add: mark_line_none)
  have c: "?st = (if trim l \<noteq> []
      then st\<lparr>response := (if response st \<noteq> [] then response st @ ''\<newline>'' else response st) @ l\<rparr>
      else st)"
    using Cons.prems(2,3) by (rule collect_line_in_response)
  have inr: "inResponse ?st" using Cons.prems(2) by (simp add: c)
  show ?case
    unfolding step Cons.IH [OF rest inr zero_less_Suc]
    by (simp add: c)
qed

lemma primary_scan_tail:
  assumes "inResponse st" and "case tail of [] \<Rightarrow> True | e # rest \<Rightarrow> has_end_marker e"
  shows "primary_scan j tail st = st"
  using assms by (cases tail) auto

lemma replace_to_end_absent: "\<not> sublist pat s \<Longrightarrow> replace_to_end pat s = s"
  by (simp add: replace_to_end_def indexOf_None_iff [symmetric])

lemma perf_tails:
  "list_all (\<lambda>p. case p of [] \<Rightarrow> False
                 | c # q \<Rightarrow> c = CHR 0x0A \<and> q \<in> set endMarkers \<and> CHR 0x0A \<notin> set q)
     perfPatterns"
  by code_simp

lemma end_markers_not_Nil: "[] \<notin> set endMarkers"
  by (simp add: endMarkers_def)

lemma join_lines_no_perf:
  assumes free: "\<forall>l \<in> set ls. CHR 0x0A \<notin> set l"
    and noend: "\<forall>l \<in> set ls. \<not> has_end_marker l"
    and p: "p \<in> set perfPatterns"
  shows "\<not> sublist p (trim (join_with ''\<newline>'' ls))"
proof
  assume sub: "sublist p (trim (join_with ''\<newline>'' ls))"
  from p perf_tails have
    "case p of [] \<Rightarrow> False
     | c # q \<Rightarrow> c = CHR 0x0A \<and> q \<in> set endMarkers \<and> CHR 0x0A \<notin> set q"
    by (simp add: list_all_iff)
  then obtain q where q: "p = CHR 0x0A # q" "q \<in> set endMarkers" "CHR 0x0A \<notin> set q"
    by (cases p) auto
  have "sublist q p" unfolding q(1) by (simp add: sublist_Cons_right)
  with sub trim_sublist [of "join_with ''\<newline>'' ls"]
  have subj: "sublist q (join_with ''\<newline>'' ls)"
    by (meson sublist_order.order.trans)
  have ne: "ls \<noteq> []"
  proof
    assume "ls = []"
    with subj have "q = []" by simp
    with q(2) end_markers_not_Nil show False by simp
  qed
  from sublist_some_line [OF q(3) subj] split_on_join [OF ne, of "CHR 0x0A"] free
  obtain l where "l \<in> set ls" "sublist q l" by auto
  then have "has_end_marker l"
    using q(2) by (auto simp: has_end_marker_def list_ex_iff includes_str_iff)
  with noend \<open>l \<in> set ls\<close> show False by blast
qed

lemma strip_perf_fixed:
  assumes "\<forall>p \<in> set perfPatterns. \<not> sublist p (trim s)"
  shows "fold (\<lambda>pattern r. trim (replace_to_end pattern r)) perfPatterns (trim s) = trim s"
proof -
  have "fold (\<lambda>pattern r. trim (replace_to_end pattern r)) ps (trim s) = trim s"
    if "set ps \<subseteq> set perfPatterns" for ps
    using that
  proof (induction ps)
    case Nil
    show ?case by simp
  next
    case (Cons p ps)
    then have "\<not> sublist p (trim s)" using assms by auto
    then have "trim (replace_to_end p (trim s)) = trim s"
      by (simp add: replace_to_end_absent trim_idem)
    with Cons show ?case by simp
  qed
  then show ?thesis by simp
qed

lemma trim_join_not_Nil:
  assumes "ls \<noteq> []" and "\<forall>l \<in> set ls. trim l \<noteq> []"
  shows "trim (join_with sep ls) \<noteq> []"
proof -
  obtain l ls' where ls: "ls = l # ls'" using assms(1) by (cases ls) auto
  with assms(2) have "trim l \<noteq> []" by simp
  then obtain c where c: "c \<in> set l" "\<not> isSpace c" by (auto simp: trim_eq_Nil_iff)
  have "set l \<subseteq> set (join_with sep ls)"
    unfolding ls by (cases ls') auto
  with c show ?thesis by (auto simp: trim_eq_Nil_iff)
qed

text \<open>
  The output starts with a line that is exactly a response marker; the lines \<open>body\<close> after
  it hold no end marker and no response marker; then the output ends, or a line with an
  end marker follows. The parser returns the non-blank lines of \<open>body\<close>, joined by line
  feeds and trimmed, and the sentinel if there is none.
\<close>

lemma parse_marker_first:
  assumes lines: "split_on CHR 0x0A output = marker # body @ tail"
    and marker: "marker \<in> set responseMarkers"
    and body: "\<forall>l \<in> set body. \<not> has_end_marker l \<and> find_marker responseMarkers l = None"
    and tail: "case tail of [] \<Rightarrow> True | e # rest \<Rightarrow> has_end_marker e"
  shows "parseLiteRTOutput output =
           (if filter (\<lambda>l. trim l \<noteq> []) body = [] then sentinel
            else trim (join_with ''\<newline>'' (filter (\<lambda>l. trim l \<noteq> []) body)))"
proof -
  let ?kept = "filter (\<lambda>l. trim l \<noteq> []) body"
  let ?init = "\<lparr>response = [], inResponse = False, foundResponseMarker = False\<rparr>"
  let ?st1 = "\<lparr>response = [], inResponse = True, foundResponseMarker = True\<rparr>"
  have free: "\<forall>l \<in> set (marker # body @ tail). CHR 0x0A \<notin> set l"
    using split_on_lines_free [of _ "CHR 0x0A" "output"] lines by metis
  then have mfree: "CHR 0x0A \<notin> set marker" by simp
  have start: "skip_logs 0 (marker # body @ tail) = 0"
    using marker_line_cases(1-4) [OF marker mfree] by simp
  have first: "primary_scan 0 (marker # body @ tail) ?init = primary_scan (Suc 0) (body @ tail) ?st1"
    by (simp add: mark_line_marker [OF marker mfree] collect_line_def)
  have "primary_scan (Suc 0) (body @ tail) ?st1 =
          primary_scan (Suc 0 + length body) tail
            (?st1\<lparr>response := foldl (\<lambda>r l. (if r \<noteq> [] then r @ ''\<newline>'' else r) @ l)
                                  (response ?st1) ?kept\<rparr>)"
    by (rule primary_scan_body [OF body]) simp_all
  also have "\<dots> = ?st1\<lparr>response := foldl (\<lambda>r l. (if r \<noteq> [] then r @ ''\<newline>'' else r) @ l)
                                  (response ?st1) ?kept\<rparr>"
    by (rule primary_scan_tail [OF _ tail]) simp
  also have "foldl (\<lambda>r l. (if r \<noteq> [] then r @ ''\<newline>'' else r) @ l) (response ?st1) ?kept
               = join_with ''\<newline>'' ?kept"
  proof -
    have "trim [] = []" by (simp add: trim_def)
    then have "\<forall>l \<in> set ?kept. l \<noteq> []" by auto
    from foldl_append_lines [OF this, of "[]"] show ?thesis by simp
  qed
  finally have scan: "primary_scan 0 (marker # body @ tail) ?init
                        = ?st1\<lparr>response := join_with ''\<newline>'' ?kept\<rparr>"
    using first by simp
  have noperf: "\<forall>p \<in> set perfPatterns. \<not> sublist p (trim (join_with ''\<newline>'' ?kept))"
    using join_lines_no_perf [of ?kept] free body by auto
  have result: "parseLiteRTOutput output =
                  (if trim (join_with ''\<newline>'' ?kept) \<noteq> [] then trim (join_with ''\<newline>'' ?kept)
                   else sentinel)"
    unfolding parseLiteRTOutput_def lines Let_def start drop_0 scan
    by (simp add: strip_perf_fixed [OF noperf])
  show ?thesis
  proof (cases "?kept = []")
    case True
    then show ?thesis using result by (simp add: trim_def)
  next
    case False
    then have "trim (join_with ''\<newline>'' ?kept) \<noteq> []"
      by (intro trim_join_not_Nil) auto
    with False show ?thesis using result by simp
  qed
qed

section \<open>The answer has no blank line\<close>

text \<open>
  The answer buffer is empty or none of its lines is blank, at every step of the parser.
  (The empty string itself has one line, a blank one.)
\<close>

lemma split_on_append:
  "split_on c (a @ c # b) = split_on c a @ split_on c b"
proof (induction a)
  case Nil
  show ?case by simp
next
  case (Cons x a)
  obtain w ws where sp: "split_on c a = w # ws"
    using split_on_not_Nil [of c a] by (cases "split_on c a") auto
  show ?case using Cons sp by simp
qed

lemma split_on_snoc:
  "x \<noteq> c \<Longrightarrow> split_on c (a @ [x]) = butlast (split_on c a) @ [last (split_on c a) @ [x]]"
proof (induction a)
  case Nil
  then show ?case by simp
next
  case (Cons y a)
  obtain w ws where sp: "split_on c a = w # ws"
    using split_on_not_Nil [of c a] by (cases "split_on c a") auto
  obtain v vs where sq: "split_on c (a @ [x]) = v # vs"
    using split_on_not_Nil [of c "a @ [x]"] by (cases "split_on c (a @ [x])") auto
  from Cons sp sq have eq: "v # vs = butlast (w # ws) @ [last (w # ws) @ [x]]" by simp
  show ?case
  proof (cases "y = c")
    case True
    then show ?thesis using sp sq eq split_on_not_Nil [of c a] by simp
  next
    case False
    show ?thesis
    proof (cases ws)
      case Nil
      with eq have "v = w @ [x]" "vs = []" by simp_all
      with False sp sq Nil show ?thesis by simp
    next
      case (Cons u us)
      with eq have "v = w" "vs = butlast ws @ [last ws @ [x]]" by simp_all
      with False sp sq Cons show ?thesis by simp
    qed
  qed
qed

lemma no_blank_dropWhile:
  assumes "\<forall>l \<in> set (split_on CHR 0x0A r). trim l \<noteq> []"
  shows "\<forall>l \<in> set (split_on CHR 0x0A (dropWhile isSpace r)). trim l \<noteq> []"
  using assms
proof (induction r)
  case Nil
  then show ?case by simp
next
  case (Cons x xs)
  show ?case
  proof (cases "isSpace x")
    case False
    with Cons.prems show ?thesis by simp
  next
    case True
    have "x \<noteq> CHR 0x0A"
    proof
      assume "x = CHR 0x0A"
      with Cons.prems have "trim [] \<noteq> []" by simp
      then show False by (simp add: trim_def)
    qed
    obtain w ws where sp: "split_on CHR 0x0A xs = w # ws"
      using split_on_not_Nil [of "CHR 0x0A" xs] by (cases "split_on CHR 0x0A xs") auto
    from Cons.prems \<open>x \<noteq> CHR 0x0A\<close> sp
    have "trim (x # w) \<noteq> []" and ws: "\<forall>l \<in> set ws. trim l \<noteq> []" by simp_all
    with True have "trim w \<noteq> []" by (auto simp: trim_eq_Nil_iff)
    with ws sp have "\<forall>l \<in> set (split_on CHR 0x0A xs). trim l \<noteq> []" by simp
    from Cons.IH [OF this] True show ?thesis by simp
  qed
qed

lemma no_blank_drop_trailing:
  assumes "\<forall>l \<in> set (split_on CHR 0x0A (t @ sp)). trim l \<noteq> []"
    and "\<forall>c \<in> set sp. isSpace c"
  shows "\<forall>l \<in> set (split_on CHR 0x0A t). trim l \<noteq> []"
  using assms
proof (induction sp arbitrary: t)
  case Nil
  then show ?case by simp
next
  case (Cons x sp)
  from Cons.prems have x: "isSpace x" and sp: "\<forall>c \<in> set sp. isSpace c" by simp_all
  from Cons.prems(1) have "\<forall>l \<in> set (split_on CHR 0x0A ((t @ [x]) @ sp)). trim l \<noteq> []" by simp
  from Cons.IH [OF this sp]
  have tx: "\<forall>l \<in> set (split_on CHR 0x0A (t @ [x])). trim l \<noteq> []" .
  have "x \<noteq> CHR 0x0A"
  proof
    assume "x = CHR 0x0A"
    with tx have "\<forall>l \<in> set (split_on CHR 0x0A t @ split_on CHR 0x0A []). trim l \<noteq> []"
      using split_on_append [of "CHR 0x0A" t "[]"] by simp
    then have "trim [] \<noteq> []" by simp
    then show False by (simp add: trim_def)
  qed
  let ?ls = "split_on CHR 0x0A t"
  have ne: "?ls \<noteq> []" by (rule split_on_not_Nil)
  from tx split_on_snoc [OF \<open>x \<noteq> CHR 0x0A\<close>, of t]
  have bl: "\<forall>l \<in> set (butlast ?ls). trim l \<noteq> []" and la: "trim (last ?ls @ [x]) \<noteq> []"
    by simp_all
  from la x have "trim (last ?ls) \<noteq> []" by (auto simp: trim_eq_Nil_iff)
  with bl have "\<forall>l \<in> set (butlast ?ls @ [last ?ls]). trim l \<noteq> []" by simp
  then show ?case unfolding append_butlast_last_id [OF ne] .
qed

lemma no_blank_trim:
  assumes "\<forall>l \<in> set (split_on CHR 0x0A r). trim l \<noteq> []"
  shows "\<forall>l \<in> set (split_on CHR 0x0A (trim r)). trim l \<noteq> []"
proof -
  let ?d = "dropWhile isSpace r"
  have d: "\<forall>l \<in> set (split_on CHR 0x0A ?d). trim l \<noteq> []"
    using assms by (rule no_blank_dropWhile)
  let ?sp = "rev (takeWhile isSpace (rev ?d))"
  have "trim r @ ?sp = rev (takeWhile isSpace (rev ?d) @ dropWhile isSpace (rev ?d))"
    unfolding trim_def by (simp only: rev_append)
  also have "\<dots> = ?d"
    by (simp only: takeWhile_dropWhile_id rev_rev_ident)
  finally have e: "split_on CHR 0x0A ?d = split_on CHR 0x0A (trim r @ ?sp)" by simp
  have sp: "\<forall>c \<in> set ?sp. isSpace c"
    by (auto dest: set_takeWhileD)
  from d have "\<forall>l \<in> set (split_on CHR 0x0A (trim r @ ?sp)). trim l \<noteq> []"
    unfolding e .
  from no_blank_drop_trailing [OF this sp] show ?thesis .
qed

lemma indexOf_Some:
  "indexOf pat s = Some k \<Longrightarrow> s = take k s @ pat @ drop (k + length pat) s"
proof (induction s arbitrary: k)
  case Nil
  then show ?case by (simp split: if_splits)
next
  case (Cons c cs)
  show ?case
  proof (cases "prefix pat (c # cs)")
    case True
    with Cons.prems have "k = 0" by simp
    with True show ?thesis by (auto simp: prefix_def)
  next
    case False
    with Cons.prems obtain j where j: "indexOf pat cs = Some j" "k = Suc j" by auto
    from Cons.IH [OF j(1)] j(2) show ?thesis by simp
  qed
qed

lemma no_blank_replace_to_end:
  assumes "\<forall>l \<in> set (split_on CHR 0x0A r). trim l \<noteq> []"
  shows "\<forall>l \<in> set (split_on CHR 0x0A (replace_to_end (CHR 0x0A # q) r)). trim l \<noteq> []"
proof (cases "indexOf (CHR 0x0A # q) r")
  case None
  with assms show ?thesis by (simp add: replace_to_end_def)
next
  case (Some k)
  let ?rest = "q @ drop (k + length (CHR 0x0A # q)) r"
  from indexOf_Some [OF Some]
  have "r = take k r @ CHR 0x0A # ?rest" by simp
  then have "split_on CHR 0x0A r = split_on CHR 0x0A (take k r @ CHR 0x0A # ?rest)"
    by (rule arg_cong)
  also have "\<dots> = split_on CHR 0x0A (take k r) @ split_on CHR 0x0A ?rest"
    by (rule split_on_append)
  finally have e: "split_on CHR 0x0A r = split_on CHR 0x0A (take k r) @ split_on CHR 0x0A ?rest" .
  from assms have "\<forall>l \<in> set (split_on CHR 0x0A (take k r)). trim l \<noteq> []"
    unfolding e by simp
  with Some show ?thesis by (simp add: replace_to_end_def)
qed

lemma trim_free: "c \<notin> set s \<Longrightarrow> c \<notin> set (trim s)"
  using trim_sublist [of s] set_mono_sublist by blast

lemma no_blank_after_marker:
  assumes "CHR 0x0A \<notin> set line" and "trim (drop n line) \<noteq> []"
  shows "\<forall>l \<in> set (split_on CHR 0x0A (trim (drop n line))). trim l \<noteq> []"
proof -
  have "CHR 0x0A \<notin> set (drop n line)"
    using assms(1) set_drop_subset [of n line] by blast
  then have "CHR 0x0A \<notin> set (trim (drop n line))" by (rule trim_free)
  then have "split_on CHR 0x0A (trim (drop n line)) = [trim (drop n line)]"
    by (rule split_on_free)
  with assms(2) show ?thesis by (simp add: trim_idem)
qed

lemma no_blank_append_line:
  assumes "r = [] \<or> (\<forall>l \<in> set (split_on CHR 0x0A r). trim l \<noteq> [])"
    and "CHR 0x0A \<notin> set line" and "trim line \<noteq> []"
  shows "\<forall>l \<in> set (split_on CHR 0x0A ((if r \<noteq> [] then r @ ''\<newline>'' else r) @ line)). trim l \<noteq> []"
proof (cases "r = []")
  case True
  with assms(2,3) show ?thesis by (simp add: split_on_free)
next
  case False
  with assms(1) have r: "\<forall>l \<in> set (split_on CHR 0x0A r). trim l \<noteq> []" by simp
  have "split_on CHR 0x0A (r @ CHR 0x0A # line) = split_on CHR 0x0A r @ [line]"
    using split_on_append [of "CHR 0x0A" r line] assms(2) by (simp add: split_on_free)
  with False r assms(3) show ?thesis by simp
qed

lemma mark_line_no_blank:
  assumes "CHR 0x0A \<notin> set line"
    and "response st = [] \<or> (\<forall>l \<in> set (split_on CHR 0x0A (response st)). trim l \<noteq> [])"
  shows "response (mark_line line st) = [] \<or>
         (\<forall>l \<in> set (split_on CHR 0x0A (response (mark_line line st))). trim l \<noteq> [])"
proof (cases "find_marker responseMarkers line")
  case None
  with assms(2) show ?thesis by (simp add: mark_line_def)
next
  case (Some mk)
  obtain marker k where mk: "mk = (marker, k)" by (cases mk)
  show ?thesis
  proof (cases "trim (drop (k + length marker) line) = []")
    case True
    with Some mk assms(2) show ?thesis by (simp add: mark_line_def)
  next
    case False
    from no_blank_after_marker [OF assms(1) False] Some mk False
    show ?thesis by (simp add: mark_line_def)
  qed
qed

lemma collect_line_no_blank:
  assumes "CHR 0x0A \<notin> set line"
    and "response st = [] \<or> (\<forall>l \<in> set (split_on CHR 0x0A (response st)). trim l \<noteq> [])"
  shows "response (collect_line i line st) = [] \<or>
         (\<forall>l \<in> set (split_on CHR 0x0A (response (collect_line i line st))). trim l \<noteq> [])"
proof (cases "inResponse st \<and> 0 < i \<and> trim line \<noteq> []")
  case True
  then have "response (collect_line i line st) =
               (if response st \<noteq> [] then response st @ ''\<newline>'' else response st) @ line"
    by (simp add: collect_line_def Let_def)
  with no_blank_append_line [OF assms(2) assms(1)] True show ?thesis by simp
next
  case False
  then have "response (collect_line i line st) = response st"
    by (auto simp: collect_line_def Let_def)
  with assms(2) show ?thesis by simp
qed

lemma primary_scan_no_blank:
  assumes "\<forall>l \<in> set lines. CHR 0x0A \<notin> set l"
    and "response st = [] \<or> (\<forall>l \<in> set (split_on CHR 0x0A (response st)). trim l \<noteq> [])"
  shows "response (primary_scan i lines st) = [] \<or>
         (\<forall>l \<in> set (split_on CHR 0x0A (response (primary_scan i lines st))). trim l \<noteq> [])"
  using assms
proof (induction lines arbitrary: i st)
  case Nil
  then show ?case by simp
next
  case (Cons line rest)
  from Cons.prems(1) have line: "CHR 0x0A \<notin> set line"
    and rest: "\<forall>l \<in> set rest. CHR 0x0A \<notin> set l" by simp_all
  show ?case
  proof (cases "has_end_marker line \<and> inResponse st")
    case True
    with Cons.prems(2) show ?thesis by simp
  next
    case False
    let ?st = "collect_line i line (mark_line line st)"
    have "response ?st = [] \<or> (\<forall>l \<in> set (split_on CHR 0x0A (response ?st)). trim l \<noteq> [])"
      by (intro collect_line_no_blank mark_line_no_blank line Cons.prems(2))
    from Cons.IH [OF rest this, of "Suc i"] False show ?thesis by auto
  qed
qed

lemma fallback_scan_lines:
  "l \<in> set (fallback_scan lines) \<Longrightarrow> l \<in> set lines \<and> trim l \<noteq> []"
  by (induction lines) (auto split: if_splits)

lemma fallback_no_blank:
  assumes "\<forall>l \<in> set lines. CHR 0x0A \<notin> set l"
  shows "join_with ''\<newline>'' (fallback_scan lines) = [] \<or>
         (\<forall>l \<in> set (split_on CHR 0x0A (join_with ''\<newline>'' (fallback_scan lines))). trim l \<noteq> [])"
proof (cases "fallback_scan lines = []")
  case True
  then show ?thesis by simp
next
  case False
  have "\<forall>l \<in> set (fallback_scan lines). CHR 0x0A \<notin> set l"
    using assms fallback_scan_lines by blast
  from split_on_join [OF False this] fallback_scan_lines [of _ lines]
  show ?thesis by auto
qed

lemma trim_Nil: "trim [] = []"
  by (simp add: trim_def)

lemma strip_perf_no_blank:
  assumes "r = [] \<or> (\<forall>l \<in> set (split_on CHR 0x0A r). trim l \<noteq> [])"
    and "set ps \<subseteq> set perfPatterns"
  shows "fold (\<lambda>pattern r. trim (replace_to_end pattern r)) ps r = [] \<or>
         (\<forall>l \<in> set (split_on CHR 0x0A (fold (\<lambda>pattern r. trim (replace_to_end pattern r)) ps r)).
            trim l \<noteq> [])"
  using assms
proof (induction ps arbitrary: r)
  case Nil
  then show ?case by simp
next
  case (Cons p ps)
  from Cons.prems(2) have "p \<in> set perfPatterns" by simp
  with perf_tails have
    "case p of [] \<Rightarrow> False
     | c # q \<Rightarrow> c = CHR 0x0A \<and> q \<in> set endMarkers \<and> CHR 0x0A \<notin> set q"
    by (simp add: list_all_iff)
  then obtain q where p: "p = CHR 0x0A # q" by (cases p) auto
  have "trim (replace_to_end p r) = [] \<or>
        (\<forall>l \<in> set (split_on CHR 0x0A (trim (replace_to_end p r))). trim l \<noteq> [])"
  proof (cases "r = []")
    case True
    then show ?thesis by (simp add: replace_to_end_def p trim_Nil)
  next
    case False
    with Cons.prems(1) have "\<forall>l \<in> set (split_on CHR 0x0A r). trim l \<noteq> []" by simp
    then have "\<forall>l \<in> set (split_on CHR 0x0A (replace_to_end p r)). trim l \<noteq> []"
      unfolding p by (rule no_blank_replace_to_end)
    then show ?thesis using no_blank_trim by blast
  qed
  from Cons.IH [OF this] Cons.prems(2) show ?case by simp
qed

lemma parse_no_blank_line:
  "\<forall>l \<in> set (split_on CHR 0x0A (parseLiteRTOutput output)). trim l \<noteq> []"
proof -
  define lines where "lines = split_on CHR 0x0A output"
  define start where "start = skip_logs 0 lines"
  define st where "st = primary_scan start (drop start lines)
               \<lparr>response = [], inResponse = False, foundResponseMarker = False\<rparr>"
  define r1 where "r1 = (if \<not> foundResponseMarker st \<and> start < length lines
             then join_with ''\<newline>'' (fallback_scan (drop start lines))
             else response st)"
  define r2 where "r2 = fold (\<lambda>pattern r. trim (replace_to_end pattern r)) perfPatterns (trim r1)"
  have "\<forall>l \<in> set lines. CHR 0x0A \<notin> set l"
    unfolding lines_def using split_on_lines_free by blast
  then have free: "\<forall>l \<in> set (drop start lines). CHR 0x0A \<notin> set l"
    using in_set_dropD by fast
  have scan: "response st = [] \<or> (\<forall>l \<in> set (split_on CHR 0x0A (response st)). trim l \<noteq> [])"
    unfolding st_def by (rule primary_scan_no_blank [OF free]) simp
  have r1: "r1 = [] \<or> (\<forall>l \<in> set (split_on CHR 0x0A r1). trim l \<noteq> [])"
  proof (cases "\<not> foundResponseMarker st \<and> start < length lines")
    case True
    then have "r1 = join_with ''\<newline>'' (fallback_scan (drop start lines))"
      unfolding r1_def by (rule if_P)
    with fallback_no_blank [OF free] show ?thesis by (simp only:)
  next
    case False
    then have "r1 = response st"
      unfolding r1_def by (rule if_not_P)
    with scan show ?thesis by (simp only:)
  qed
  have "trim r1 = [] \<or> (\<forall>l \<in> set (split_on CHR 0x0A (trim r1)). trim l \<noteq> [])"
  proof (cases "r1 = []")
    case True
    then show ?thesis by (simp add: trim_Nil)
  next
    case False
    with r1 have "\<forall>l \<in> set (split_on CHR 0x0A r1). trim l \<noteq> []" by blast
    then show ?thesis by (intro disjI2 no_blank_trim)
  qed
  from strip_perf_no_blank [OF this subset_refl]
  have r2: "r2 = [] \<or> (\<forall>l \<in> set (split_on CHR 0x0A r2). trim l \<noteq> [])"
    unfolding r2_def .
  have s: "\<forall>l \<in> set (split_on CHR 0x0A sentinel). trim l \<noteq> []" by code_simp
  have eq: "parseLiteRTOutput output = (if r2 \<noteq> [] then r2 else sentinel)"
    unfolding parseLiteRTOutput_def Let_def r2_def r1_def st_def start_def lines_def ..
  show ?thesis
  proof (cases "r2 = []")
    case True
    with s show ?thesis unfolding eq by simp
  next
    case False
    with r2 have "\<forall>l \<in> set (split_on CHR 0x0A r2). trim l \<noteq> []" by blast
    with False show ?thesis unfolding eq by simp
  qed
qed

section \<open>What the parser returns\<close>

text \<open>
  C1, as amended. When the first line of the output is exactly a response marker, it is
  followed immediately by one or more non-blank lines, none of which includes an end
  marker or a response marker, and then comes a line that includes an end marker, the
  parser returns exactly those intervening lines, joined by line feeds and trimmed.
\<close>

theorem parse_marker_then_body:
  assumes "split_on CHR 0x0A output = marker # body @ e # rest"
    and "marker \<in> set responseMarkers"
    and "body \<noteq> []"
    and "\<forall>l \<in> set body. trim l \<noteq> [] \<and> \<not> has_end_marker l \<and> find_marker responseMarkers l = None"
    and "has_end_marker e"
  shows "parseLiteRTOutput output = trim (join_with ''\<newline>'' body)"
proof -
  have kept: "filter (\<lambda>l. trim l \<noteq> []) body = body"
    using assms(4) by (simp add: filter_id_conv)
  have "parseLiteRTOutput output =
          (if filter (\<lambda>l. trim l \<noteq> []) body = [] then sentinel
           else trim (join_with ''\<newline>'' (filter (\<lambda>l. trim l \<noteq> []) body)))"
    using assms(1,2,4,5) by (intro parse_marker_first [where tail = "e # rest"]) auto
  then show ?thesis using assms(3) by (simp add: kept)
qed

theorem parse_marker_then_body_witness:
  "parseLiteRTOutput
     ''Response:\<newline>Paris is the capital of France.\<newline>  It lies on the Seine. \<newline>Prefill: 120 tokens/sec\<newline>''
   = ''Paris is the capital of France.\<newline>  It lies on the Seine.''"
proof -
  have 1: "split_on CHR 0x0A
             ''Response:\<newline>Paris is the capital of France.\<newline>  It lies on the Seine. \<newline>Prefill: 120 tokens/sec\<newline>''
           = ''Response:'' # [''Paris is the capital of France.'', ''  It lies on the Seine. '']
               @ ''Prefill: 120 tokens/sec'' # ['''']"
    by code_simp
  have 2: "''Response:'' \<in> set responseMarkers" by (simp add: responseMarkers_def)
  have 3: "[''Paris is the capital of France.'', ''  It lies on the Seine. ''] \<noteq> []" by simp
  have 4: "\<forall>l \<in> set [''Paris is the capital of France.'', ''  It lies on the Seine. ''].
             trim l \<noteq> [] \<and> \<not> has_end_marker l \<and> find_marker responseMarkers l = None"
    by code_simp
  have 5: "has_end_marker ''Prefill: 120 tokens/sec''" by code_simp
  have 6: "trim (join_with ''\<newline>'' [''Paris is the capital of France.'', ''  It lies on the Seine. ''])
             = ''Paris is the capital of France.\<newline>  It lies on the Seine.''"
    by code_simp
  from parse_marker_then_body [OF 1 2 3 4 5] 6 show ?thesis by simp
qed

text \<open>
  C1 as stated fails. In each of these outputs a line is exactly \<open>Response:\<close>, non-blank
  lines follow it, and then a line with an end marker. In the first, an earlier marker
  and end marker stop the scan before the line \<open>Response:\<close> is reached; in the second, an
  intervening line includes the end marker \<open>---\<close>; in the third, an intervening line
  includes the marker \<open>Output:\<close>, whose rest replaces the buffer. In none does the parser
  return the intervening lines.
\<close>

theorem parse_marker_then_body_counterexample:
  "parseLiteRTOutput ''Output: a\<newline>---\<newline>Response:\<newline>foo\<newline>Prefill: 1'' = ''a''
   \<and> parseLiteRTOutput ''Response:\<newline>foo --- bar\<newline>baz\<newline>Prefill: 1'' = ''No response generated''
   \<and> parseLiteRTOutput ''Response:\<newline>The Output: 42\<newline>Prefill: 1'' = ''42\<newline>The Output: 42''"
  by code_simp

text \<open>
  C5, as amended. The parser drops every blank line of the response body, the interior
  ones as well as those before the first non-blank line: for every output, no line of the
  answer is blank. In particular, when the first line of the output is exactly a response
  marker and the lines of the body after it, up to the end of the output or to the first
  line that includes an end marker, include no end marker and no response marker, the
  parser returns the non-blank lines of the body, joined by line feeds and trimmed, and
  the sentinel if the body has no non-blank line.
\<close>

theorem parse_drops_blank_lines:
  "(\<forall>l \<in> set (split_on CHR 0x0A (parseLiteRTOutput output)). trim l \<noteq> [])
   \<and> (split_on CHR 0x0A output = marker # body @ tail
        \<and> marker \<in> set responseMarkers
        \<and> (\<forall>l \<in> set body. \<not> has_end_marker l \<and> find_marker responseMarkers l = None)
        \<and> (case tail of [] \<Rightarrow> True | e # rest \<Rightarrow> has_end_marker e)
       \<longrightarrow> parseLiteRTOutput output =
             (if filter (\<lambda>l. trim l \<noteq> []) body = [] then sentinel
              else trim (join_with ''\<newline>'' (filter (\<lambda>l. trim l \<noteq> []) body))))"
  using parse_no_blank_line [of "output"] parse_marker_first [of "output" marker body tail]
  by blast

theorem parse_drops_blank_lines_witness:
  "parseLiteRTOutput ''Response:\<newline>\<newline>first\<newline>\<newline>   \<newline>second\<newline>---\<newline>ignored''
     = ''first\<newline>second''
   \<and> [] \<notin> set (split_on CHR 0x0A
         (parseLiteRTOutput ''Response:\<newline>\<newline>first\<newline>\<newline>   \<newline>second\<newline>---\<newline>ignored''))"
proof -
  let ?out = "''Response:\<newline>\<newline>first\<newline>\<newline>   \<newline>second\<newline>---\<newline>ignored''"
  have 1: "split_on CHR 0x0A ?out
           = ''Response:'' # [[], ''first'', [], ''   '', ''second''] @ [''---'', ''ignored'']"
    by code_simp
  have 2: "''Response:'' \<in> set responseMarkers" by (simp add: responseMarkers_def)
  have 3: "\<forall>l \<in> set [[], ''first'', [], ''   '', ''second''].
             \<not> has_end_marker l \<and> find_marker responseMarkers l = None"
    by code_simp
  have 4: "case [''---'', ''ignored''] of [] \<Rightarrow> True | e # rest \<Rightarrow> has_end_marker e"
    by code_simp
  have 5: "filter (\<lambda>l. trim l \<noteq> []) [[], ''first'', [], ''   '', ''second''] = [''first'', ''second'']"
    by code_simp
  have 6: "trim (join_with ''\<newline>'' [''first'', ''second'']) = ''first\<newline>second''"
    by code_simp
  note t = parse_drops_blank_lines [of ?out "''Response:''"
      "[[], ''first'', [], ''   '', ''second'']" "[''---'', ''ignored'']"]
  from t 1 2 3 4 have
    "parseLiteRTOutput ?out =
       (if filter (\<lambda>l. trim l \<noteq> []) [[], ''first'', [], ''   '', ''second''] = [] then sentinel
        else trim (join_with ''\<newline>'' (filter (\<lambda>l. trim l \<noteq> []) [[], ''first'', [], ''   '', ''second''])))"
    by blast
  then have a: "parseLiteRTOutput ?out = ''first\<newline>second''"
    unfolding 5 6 by simp
  from t have "\<forall>l \<in> set (split_on CHR 0x0A (parseLiteRTOutput ?out)). trim l \<noteq> []"
    by blast
  then have b: "[] \<notin> set (split_on CHR 0x0A (parseLiteRTOutput ?out))"
    using trim_Nil by blast
  from a b show ?thesis by blast
qed

text \<open>
  C5 as stated fails: the blank line between \<open>first\<close> and \<open>second\<close> is inside the response
  body, and the answer has no empty line in its place.
\<close>

theorem parse_interior_blank_counterexample:
  "parseLiteRTOutput ''Response:\<newline>first\<newline>\<newline>second\<newline>'' = ''first\<newline>second''
   \<and> split_on CHR 0x0A (parseLiteRTOutput ''Response:\<newline>first\<newline>\<newline>second\<newline>'')
       = [''first'', ''second'']"
  by code_simp

end
